theory Spec2Isabelle
  imports Main "HOL-Library.Word"
begin

unbundle bit_operations_syntax

section \<open>Machine types and configuration of libphit\<close>

text \<open>
  The library works on \<open>uint8_t\<close>, \<open>uint32_t\<close> and \<open>uint64_t\<close>, whose arithmetic wraps
  around, and on \<open>int\<close>. A C \<open>int\<close> is kept as its 32-bit two's complement pattern and
  read with \<open>sint\<close>; comparisons of \<open>int\<close>s are the signed ones (\<open>word_sle\<close>,
  \<open>word_sless\<close>).
\<close>

type_synonym u8 = "8 word"
type_synonym u32 = "32 word"
type_synonym u64 = "64 word"
type_synonym c_int = "32 word"

definition PHIT_WORKLOAD_ITERS :: nat where
  "PHIT_WORKLOAD_ITERS = 20"

definition PHIT_POOL_LANES :: nat where
  "PHIT_POOL_LANES = 4"

definition PHIT_PRNG_SEED_ROUNDS :: nat where
  "PHIT_PRNG_SEED_ROUNDS = 16"

section \<open>Hash functions\<close>

text \<open>\<open>phit_hash32\<close>: four assignments to \<open>key\<close>, in \<open>uint32_t\<close> arithmetic.\<close>

definition phit_hash32 :: "u32 \<Rightarrow> u32" where
  "phit_hash32 key =
     (let key1 = key * 2654435761;
          key2 = key1 XOR drop_bit 16 key1;
          key3 = key2 * 0x85ebca6b;
          key4 = key3 XOR drop_bit 13 key3
      in key4)"

text \<open>\<open>phit_hash64\<close>: three assignments to \<open>key\<close>, in \<open>uint64_t\<close> arithmetic.\<close>

definition phit_hash64 :: "u64 \<Rightarrow> u64" where
  "phit_hash64 key =
     (let key1 = (key XOR drop_bit 30 key) * 0xBF58476D1CE4E5B9;
          key2 = (key1 XOR drop_bit 27 key1) * 0x94D049BB133111EB;
          key3 = key2 XOR drop_bit 31 key2
      in key3)"

section \<open>Rotation helper\<close>

text \<open>\<open>phit__rotl64(x, k) = (x << k) | (x >> (64 - k))\<close>; every call site passes a
  constant \<open>k\<close> between 7 and 43.\<close>

definition phit__rotl64 :: "u64 \<Rightarrow> nat \<Rightarrow> u64" where
  "phit__rotl64 x k = push_bit k x OR drop_bit (64 - k) x"

section \<open>Entropy pool\<close>

text \<open>
  \<open>phit_pool_t\<close>: the lanes \<open>uint64_t pool[PHIT_POOL_LANES]\<close>, the \<open>uint64_t\<close> mix
  counter and the \<open>int\<close> diagnostic counter. The increment of \<open>bits_collected\<close> is
  modelled on its two's complement pattern.
\<close>

record phit_pool_t =
  pool :: "u64 list"
  mix_counter :: u64
  bits_collected :: c_int

text \<open>\<open>phit_pool_init\<close>: \<open>memset\<close> of the whole structure to zero.\<close>

definition phit_pool_init :: phit_pool_t where
  "phit_pool_init = \<lparr>pool = replicate PHIT_POOL_LANES 0, mix_counter = 0, bits_collected = 0\<rparr>"

text \<open>\<open>phit_pool_feed\<close>, statement by statement.\<close>

definition phit_pool_feed :: "phit_pool_t \<Rightarrow> u64 \<Rightarrow> phit_pool_t" where
  "phit_pool_feed p sample =
     (let mc = mix_counter p + 1;
          z0 = sample + mc * 0x9E3779B97F4A7C15;
          z1 = (z0 XOR drop_bit 30 z0) * 0xBF58476D1CE4E5B9;
          z2 = (z1 XOR drop_bit 27 z1) * 0x94D049BB133111EB;
          z = z2 XOR drop_bit 31 z2;
          slot = unat (mc AND 3);
          lanes1 = (pool p)[slot := pool p ! slot XOR z];
          nxt = (slot + 1) AND 3;
          lanes2 = lanes1[nxt := lanes1 ! nxt XOR phit__rotl64 (lanes1 ! slot) 17]
      in p\<lparr>pool := lanes2, mix_counter := mc, bits_collected := bits_collected p + 2\<rparr>)"

section \<open>Timer source and the sink\<close>

text \<open>
  \<open>phit_now_ns\<close> reads the platform's monotonic clock. The values it returns are not
  computed by the library, so they are a parameter: \<open>clock w n\<close> is the value of the
  \<open>n\<close>-th read and \<open>reads w\<close> counts the reads made so far. \<open>phit__sink\<close> is the
  file-scope \<open>volatile\<close> variable that receives each workload's result.
\<close>

record world =
  clock :: "nat \<Rightarrow> u64"
  reads :: nat
  phit__sink :: u64

definition phit_now_ns :: "world \<Rightarrow> u64 \<times> world" where
  "phit_now_ns w = (clock w (reads w), w\<lparr>reads := Suc (reads w)\<rparr>)"

section \<open>Core sampling\<close>

text \<open>The workload loop of \<open>phit_sample\<close> and \<open>phit_sample_compound\<close>; the first
  argument is the number of iterations still to run.\<close>

fun sample_workload :: "nat \<Rightarrow> u64 \<Rightarrow> u64" where
  "sample_workload 0 x = x"
| "sample_workload (Suc n) x =
     sample_workload n (x * 6364136223846793005 + 1442695040888963407)"

definition phit_sample :: "world \<Rightarrow> u32 \<times> world" where
  "phit_sample w =
     (let x = sample_workload 10 0xDEADBEEF;
          w1 = w\<lparr>phit__sink := x\<rparr>;
          t = fst (phit_now_ns w1);
          w2 = snd (phit_now_ns w1);
          key = (ucast ((t AND 3) OR
                   ucast (push_bit 2 ((ucast (drop_bit 2 t) :: u32) XOR (ucast x :: u32)))) :: u32)
      in (phit_hash32 key, w2))"

text \<open>
  The loop of \<open>phit_sample_compound\<close>: \<open>for (int i = 0; i < num_reads; i++)\<close>, entered
  with \<open>i = 0\<close> and \<open>key = 0\<close>. \<open>(uint64_t)i\<close> sign-extends, \<open>(uint32_t)i\<close> keeps the
  bit pattern.
\<close>

function compound_loop :: "c_int \<Rightarrow> c_int \<Rightarrow> u32 \<Rightarrow> world \<Rightarrow> u32 \<times> world" where
  "compound_loop i num_reads key w =
     (if i <s num_reads then
        (let x = sample_workload 10 (0xDEADBEEF XOR ((scast i :: u64) * 0x9E3779B97F4A7C15));
             w1 = w\<lparr>phit__sink := x\<rparr>;
             t = fst (phit_now_ns w1);
             w2 = snd (phit_now_ns w1);
             sample = (ucast ((t AND 3) OR
                        ucast (push_bit 2 ((ucast (drop_bit 2 t) :: u32) XOR (ucast x :: u32)))) :: u32);
             key1 = key XOR phit_hash32 (sample + i);
             key2 = push_bit 7 key1 OR drop_bit 25 key1
         in compound_loop (i + 1) num_reads key2 w2)
      else (key, w))"
  by pat_completeness auto

termination
proof (relation "measure (\<lambda>(i, num_reads, key, w). nat (sint num_reads - sint i))")
  show "wf (measure (\<lambda>(i, num_reads, key, w). nat (sint num_reads - sint i)))"
    by simp
next
  fix i num_reads :: c_int and key :: u32 and w :: world and x :: u64
    and w1 w2 :: world and t :: u64 and sample key1 key2 :: u32
  assume less: "i <s num_reads"
  have "sint (i + 1) = signed_take_bit 31 (sint i + 1)"
    by (simp add: sint_word_ariths)
  also have "\<dots> = sint i + 1"
    using less sint_ge [of i] sint_lt [of num_reads]
    by (intro signed_take_bit_int_eq_self) (simp_all add: word_sless_alt)
  finally show "((i + 1, num_reads, key2, w2), (i, num_reads, key, w))
      \<in> measure (\<lambda>(i, num_reads, key, w). nat (sint num_reads - sint i))"
    using less by (simp add: word_sless_alt)
qed

declare compound_loop.simps [simp del]

definition phit_sample_compound :: "c_int \<Rightarrow> world \<Rightarrow> u32 \<times> world" where
  "phit_sample_compound num_reads w =
     (let r = compound_loop 0 num_reads 0 w
      in (phit_hash32 (fst r), snd r))"

section \<open>Routing\<close>

text \<open>
  \<open>phit_route\<close> returns \<open>(int)(phit_sample_compound(2) % (uint32_t)num_destinations)\<close>.
  Both casts keep the bit pattern and \<open>%\<close> is the unsigned remainder. The function has
  no check of its argument: with a zero divisor the C expression has undefined behaviour,
  which is the result \<open>None\<close> here.
\<close>

definition phit_route :: "c_int \<Rightarrow> world \<Rightarrow> (c_int \<times> world) option" where
  "phit_route num_destinations w =
     (let r = phit_sample_compound 2 w
      in if num_destinations = 0 then None
         else Some (fst r mod num_destinations, snd r))"

section \<open>Harvesting and extraction\<close>

text \<open>The workload loop of \<open>phit_pool_harvest\<close>; the first argument is the number of
  iterations still to run.\<close>

fun harvest_workload :: "nat \<Rightarrow> u64 \<Rightarrow> u64" where
  "harvest_workload 0 x = x"
| "harvest_workload (Suc n) x =
     (let x1 = x * 6364136223846793005 + 1442695040888963407
      in harvest_workload n (x1 XOR drop_bit 17 x1))"

definition phit_pool_harvest :: "phit_pool_t \<Rightarrow> world \<Rightarrow> phit_pool_t \<times> world" where
  "phit_pool_harvest p w =
     (let x = harvest_workload PHIT_WORKLOAD_ITERS 0xCAFEBABE;
          w1 = w\<lparr>phit__sink := x\<rparr>;
          t = fst (phit_now_ns w1);
          w2 = snd (phit_now_ns w1);
          p1 = phit_pool_feed p t;
          p2 = phit_pool_feed p1 (x XOR t)
      in (p2, w2))"

text \<open>The loops \<open>for (i = 0; i < N; i++) phit_pool_harvest(p)\<close> of \<open>phit_pool_extract\<close>
  and \<open>phit_prng_init\<close>; the first argument is the number of iterations still to run.\<close>

fun harvest_loop :: "nat \<Rightarrow> phit_pool_t \<Rightarrow> world \<Rightarrow> phit_pool_t \<times> world" where
  "harvest_loop 0 p w = (p, w)"
| "harvest_loop (Suc n) p w =
     (let r = phit_pool_harvest p w in harvest_loop n (fst r) (snd r))"

text \<open>\<open>phit_pool_extract\<close> returns the output, the pool it leaves and the world.\<close>

definition phit_pool_extract :: "phit_pool_t \<Rightarrow> world \<Rightarrow> u64 \<times> phit_pool_t \<times> world" where
  "phit_pool_extract p w =
     (let r = harvest_loop PHIT_POOL_LANES p w;
          p4 = fst r;
          out0 = pool p4 ! 0;
          out1 = out0 XOR phit__rotl64 (pool p4 ! 1) 13;
          out2 = out1 XOR phit__rotl64 (pool p4 ! 2) 29;
          out = out2 XOR phit__rotl64 (pool p4 ! 3) 43;
          lanes1 = (pool p4)[0 := pool p4 ! 0 XOR phit__rotl64 out 7];
          lanes2 = lanes1[1 := lanes1 ! 1 XOR phit__rotl64 out 23]
      in (out, p4\<lparr>pool := lanes2\<rparr>, snd r))"

section \<open>PRNG\<close>

record phit_prng_t =
  rng_pool :: phit_pool_t
  generated :: u64

definition phit_prng_init :: "world \<Rightarrow> phit_prng_t \<times> world" where
  "phit_prng_init w =
     (let r = harvest_loop PHIT_PRNG_SEED_ROUNDS phit_pool_init w
      in (\<lparr>rng_pool = fst r, generated = 0\<rparr>, snd r))"

definition phit_prng_u64 :: "phit_prng_t \<Rightarrow> world \<Rightarrow> u64 \<times> phit_prng_t \<times> world" where
  "phit_prng_u64 rng w =
     (let rng1 = rng\<lparr>generated := generated rng + 1\<rparr>;
          r = phit_pool_extract (rng_pool rng1) w
      in (fst r, rng1\<lparr>rng_pool := fst (snd r)\<rparr>, snd (snd r)))"

definition phit_prng_u32 :: "phit_prng_t \<Rightarrow> world \<Rightarrow> u32 \<times> phit_prng_t \<times> world" where
  "phit_prng_u32 rng w =
     (let r = phit_prng_u64 rng w in (ucast (drop_bit 32 (fst r)), snd r))"

text \<open>\<open>phit_prng_range\<close>: the guard \<open>if (max == 0) return 0;\<close> comes first; otherwise
  the remainder is taken in \<open>uint64_t\<close> and truncated.\<close>

definition phit_prng_range :: "phit_prng_t \<Rightarrow> u32 \<Rightarrow> world \<Rightarrow> u32 \<times> phit_prng_t \<times> world" where
  "phit_prng_range rng mx w =
     (if mx = 0 then (0, rng, w)
      else (let r = phit_prng_u64 rng w in (ucast (fst r mod ucast mx), snd r)))"

text \<open>
  Memory is a store from addresses to bytes. \<open>memcpy(p, &v, n)\<close> with \<open>n \<le> 8\<close> copies the
  first \<open>n\<close> bytes of the object representation of the \<open>uint64_t v\<close>, least significant
  byte first (the byte order of the ARM64 and x86 targets of the library).
\<close>

type_synonym memory = "nat \<Rightarrow> u8"

definition u64_byte :: "u64 \<Rightarrow> nat \<Rightarrow> u8" where
  "u64_byte v k = ucast (drop_bit (8 * k) v)"

definition memcpy_u64 :: "memory \<Rightarrow> nat \<Rightarrow> u64 \<Rightarrow> nat \<Rightarrow> memory" where
  "memcpy_u64 mem p v n = (\<lambda>a. if p \<le> a \<and> a < p + n then u64_byte v (a - p) else mem a)"

text \<open>The loop \<open>while (len >= 8)\<close> of \<open>phit_prng_fill\<close>, on the generator, the world,
  the memory, the cursor \<open>p\<close> and the remaining length.\<close>

function fill_loop ::
  "phit_prng_t \<Rightarrow> world \<Rightarrow> memory \<Rightarrow> nat \<Rightarrow> c_int \<Rightarrow> phit_prng_t \<times> world \<times> memory \<times> nat \<times> c_int" where
  "fill_loop rng w mem p len =
     (if 8 \<le>s len then
        (let r = phit_prng_u64 rng w;
             v = fst r;
             mem1 = memcpy_u64 mem p v 8
         in fill_loop (fst (snd r)) (snd (snd r)) mem1 (p + 8) (len - 8))
      else (rng, w, mem, p, len))"
  by pat_completeness auto
termination
proof (relation "measure (\<lambda>(rng, w, mem, p, len). nat (sint len))")
  show "wf (measure (\<lambda>(rng, w, mem, p, len). nat (sint len)))"
    by simp
next
  fix rng :: phit_prng_t and w :: world and mem mem1 :: memory and p :: nat and len :: c_int
    and r :: "u64 \<times> phit_prng_t \<times> world" and v :: u64
  assume ge: "8 \<le>s len"
  have "sint (len - 8) = signed_take_bit 31 (sint len - 8)"
    by (simp add: sint_word_ariths)
  also have "\<dots> = sint len - 8"
    using ge sint_lt [of len]
    by (intro signed_take_bit_int_eq_self) (simp_all add: word_sle_eq)
  finally show "((fst (snd r), snd (snd r), mem1, p + 8, len - 8), (rng, w, mem, p, len))
      \<in> measure (\<lambda>(rng, w, mem, p, len). nat (sint len))"
    using ge by (simp add: word_sle_eq)
qed

declare fill_loop.simps [simp del]

definition phit_prng_fill ::
  "phit_prng_t \<Rightarrow> world \<Rightarrow> memory \<Rightarrow> nat \<Rightarrow> c_int \<Rightarrow> phit_prng_t \<times> world \<times> memory" where
  "phit_prng_fill rng w mem buf len =
     (case fill_loop rng w mem buf len of
        (rng1, w1, mem1, p1, len1) \<Rightarrow>
          if 0 <s len1 then
            (let r = phit_prng_u64 rng1 w1;
                 v = fst r
             in (fst (snd r), snd (snd r), memcpy_u64 mem1 p1 v (nat (sint len1))))
          else (rng1, w1, mem1))"

section \<open>Reference descriptions\<close>

text \<open>
  The definitions of this section are not translations of code. They restate the
  documented behaviour, to be compared with the code above, and fix concrete states.
\<close>

text \<open>The 32-bit avalanche hash in arithmetic modulo \<open>2 ^ 32\<close> on natural numbers.\<close>

definition avalanche32 :: "nat \<Rightarrow> nat" where
  "avalanche32 x =
     (let a = (x * 2654435761) mod 2 ^ 32;
          b = a XOR (a div 2 ^ 16);
          c = (b * 0x85EBCA6B) mod 2 ^ 32
      in c XOR (c div 2 ^ 13))"

text \<open>The 64-bit mixing hash in arithmetic modulo \<open>2 ^ 64\<close> on natural numbers.\<close>

definition mix64 :: "nat \<Rightarrow> nat" where
  "mix64 x =
     (let a = ((x XOR (x div 2 ^ 30)) * 0xBF58476D1CE4E5B9) mod 2 ^ 64;
          b = ((a XOR (a div 2 ^ 27)) * 0x94D049BB133111EB) mod 2 ^ 64
      in b XOR (b div 2 ^ 31))"

text \<open>The documented effect of one feed: counter first, then the mixed sample into the
  lane \<open>mix_counter mod 4\<close>, then the 17-bit rotation of that lane into the next one.\<close>

definition pool_feed_ref :: "phit_pool_t \<Rightarrow> u64 \<Rightarrow> phit_pool_t" where
  "pool_feed_ref p sample =
     (let c = mix_counter p + 1;
          z = phit_hash64 (sample + c * 0x9E3779B97F4A7C15);
          slot = unat c mod 4;
          lanes1 = (pool p)[slot := pool p ! slot XOR z];
          nxt = (slot + 1) mod 4;
          lanes2 = lanes1[nxt := lanes1 ! nxt XOR word_rotl 17 (lanes1 ! slot)]
      in \<lparr>pool = lanes2, mix_counter = c, bits_collected = bits_collected p + 2\<rparr>)"

text \<open>A world whose clock always reads 0, and a zeroed generator.\<close>

definition still_world :: world where
  "still_world = \<lparr>clock = (\<lambda>n. 0), reads = 0, phit__sink = 0\<rparr>"

definition zero_prng :: phit_prng_t where
  "zero_prng = \<lparr>rng_pool = phit_pool_init, generated = 0\<rparr>"

text \<open>The documented harvest, on the timer value and the workload result: two feeds,
  the raw timer value first, then timer xor workload result.\<close>

definition pool_harvest_ref :: "phit_pool_t \<Rightarrow> u64 \<Rightarrow> u64 \<Rightarrow> phit_pool_t" where
  "pool_harvest_ref p t x = phit_pool_feed (phit_pool_feed p t) (t XOR x)"

text \<open>The documented extraction: four harvests on the next four timer values, the
  output from the lanes they leave, then the output folded back into lanes 0 and 1.\<close>

definition pool_extract_ref :: "phit_pool_t \<Rightarrow> world \<Rightarrow> u64 \<times> phit_pool_t \<times> world" where
  "pool_extract_ref p w =
     (let x = harvest_workload 20 0xCAFEBABE;
          p1 = pool_harvest_ref p (clock w (reads w)) x;
          p2 = pool_harvest_ref p1 (clock w (reads w + 1)) x;
          p3 = pool_harvest_ref p2 (clock w (reads w + 2)) x;
          p4 = pool_harvest_ref p3 (clock w (reads w + 3)) x;
          out = pool p4 ! 0 XOR word_rotl 13 (pool p4 ! 1) XOR word_rotl 29 (pool p4 ! 2)
                  XOR word_rotl 43 (pool p4 ! 3);
          lanes = (pool p4)[0 := pool p4 ! 0 XOR word_rotl 7 out,
                            1 := pool p4 ! 1 XOR word_rotl 23 out]
      in (out, p4\<lparr>pool := lanes\<rparr>, w\<lparr>reads := reads w + 4, phit__sink := x\<rparr>))"

text \<open>The seed of the \<open>i\<close>-th workload of a compound sample.\<close>

definition compound_seed :: "nat \<Rightarrow> u64" where
  "compound_seed i = 0xDEADBEEF XOR (of_nat i * 0x9E3779B97F4A7C15)"

text \<open>Step 3 of the basic sample: the low 2 bits of \<open>t\<close> in positions 0 and 1, above
  them \<open>(t >> 2) XOR workload_result\<close>, truncated to 32 bits.\<close>

definition basic_key :: "u64 \<Rightarrow> u64 \<Rightarrow> u32" where
  "basic_key t x = ucast ((t AND 3) OR push_bit 2 (drop_bit 2 t XOR x))"

text \<open>One fold of the compound sample as the code makes it: the key of read \<open>i\<close>,
  offset by \<open>i\<close>, is hashed before it is xored into the accumulator.\<close>

definition fold_hashed :: "(nat \<Rightarrow> u64) \<Rightarrow> nat \<Rightarrow> u32 \<Rightarrow> nat \<Rightarrow> u32" where
  "fold_hashed clk base acc i =
     word_rotl 7 (acc XOR
       phit_hash32 (basic_key (clk (base + i)) (sample_workload 10 (compound_seed i)) + of_nat i))"

definition compound_hashed :: "nat \<Rightarrow> world \<Rightarrow> u32" where
  "compound_hashed n w = phit_hash32 (foldl (fold_hashed (clock w) (reads w)) 0 [0..<n])"

text \<open>One fold as documented: the key of read \<open>i\<close>, offset by \<open>i\<close>, is xored into the
  accumulator as it is, and the hash is applied once, after the folds.\<close>

definition fold_documented :: "(nat \<Rightarrow> u64) \<Rightarrow> nat \<Rightarrow> u32 \<Rightarrow> nat \<Rightarrow> u32" where
  "fold_documented clk base acc i =
     word_rotl 7 (acc XOR
       (basic_key (clk (base + i)) (sample_workload 10 (compound_seed i)) + of_nat i))"

definition compound_documented :: "nat \<Rightarrow> world \<Rightarrow> u32" where
  "compound_documented n w =
     phit_hash32 (foldl (fold_documented (clock w) (reads w)) 0 [0..<n])"

text \<open>The first \<open>k\<close> successive results of \<open>phit_prng_u64\<close>, with the generator and the
  world they leave.\<close>

fun prng_outputs :: "nat \<Rightarrow> phit_prng_t \<Rightarrow> world \<Rightarrow> u64 list \<times> phit_prng_t \<times> world" where
  "prng_outputs 0 rng w = ([], rng, w)"
| "prng_outputs (Suc k) rng w =
     (let r = phit_prng_u64 rng w;
          rs = prng_outputs k (fst (snd r)) (snd (snd r))
      in (fst r # fst rs, snd rs))"

text \<open>The memory after the first \<open>n\<close> bytes of the values \<open>vs\<close>, laid out one after the
  other, are stored from address \<open>buf\<close> on: every other address keeps its byte.\<close>

definition fill_mem :: "u64 list \<Rightarrow> memory \<Rightarrow> nat \<Rightarrow> nat \<Rightarrow> memory" where
  "fill_mem vs mem buf n =
     (\<lambda>a. if buf \<le> a \<and> a < buf + n
          then u64_byte (vs ! ((a - buf) div 8)) ((a - buf) mod 8)
          else mem a)"

section \<open>Bit-level facts\<close>

lemma nat_and3: "(n::nat) AND 3 = n mod 4"
proof -
  have m: "mask 2 = (3::nat)"
    by (simp add: mask_eq_exp_minus_1)
  have "n AND mask 2 = n mod 2 ^ 2"
    by (simp only: take_bit_eq_mod flip: take_bit_eq_mask)
  then show ?thesis
    by (simp only: m) simp
qed

lemma unat_and3: "unat (w AND 3) = unat w mod 4" for w :: u64
proof -
  have "w AND 3 = take_bit 2 w"
    by (simp add: take_bit_eq_mask mask_eq_exp_minus_1)
  then have "unat (w AND 3) = take_bit 2 (unat w)"
    by (simp only: unsigned_take_bit_eq)
  then show ?thesis
    by (simp add: take_bit_eq_mod)
qed

lemma unat_xorshift: "unat (w XOR drop_bit n w) = unat w XOR unat w div 2 ^ n"
  by (simp only: unsigned_xor_eq unat_drop_bit_eq) (simp only: drop_bit_eq_div)

lemma shift_or_is_rotl:
  fixes x :: "'a::len word"
  assumes k: "0 < k" "k < LENGTH('a)"
  shows "push_bit k x OR drop_bit (LENGTH('a) - k) x = word_rotl k x"
proof (rule bit_word_eqI)
  fix n assume n: "n < LENGTH('a)"
  have rot: "bit (word_rotl k x) n = bit x ((n + (LENGTH('a) - k)) mod LENGTH('a))"
    using k n by (simp add: bit_word_rotl_iff)
  have or: "bit (push_bit k x OR drop_bit (LENGTH('a) - k) x) n =
      (k \<le> n \<and> bit x (n - k) \<or> bit x (LENGTH('a) - k + n))"
    using k n by (simp add: bit_simps)
  show "bit (push_bit k x OR drop_bit (LENGTH('a) - k) x) n = bit (word_rotl k x) n"
  proof (cases "k \<le> n")
    case True
    then have m: "(n + (LENGTH('a) - k)) mod LENGTH('a) = n - k"
      using k n by (simp add: mod_if)
    have "\<not> bit x (LENGTH('a) - k + n)"
      using True k by (auto dest: bit_imp_le_length)
    with True show ?thesis
      unfolding rot or m by simp
  next
    case False
    then have m: "(n + (LENGTH('a) - k)) mod LENGTH('a) = LENGTH('a) - k + n"
      using k n by (auto simp add: mod_if)
    from False show ?thesis
      unfolding rot or m by simp
  qed
qed

lemma rotl64_word_rotl: "0 < k \<Longrightarrow> k < 64 \<Longrightarrow> phit__rotl64 x k = word_rotl k x"
  using shift_or_is_rotl [of k x] by (simp add: phit__rotl64_def)

lemma rotl64_eq_0_iff: "0 < k \<Longrightarrow> k < 64 \<Longrightarrow> phit__rotl64 x k = 0 \<longleftrightarrow> x = 0"
  by (metis rotl64_word_rotl word_rot_lr word_rotx_0)

section \<open>The mixing primitives\<close>

lemma unat_hash32: "unat (phit_hash32 x) = avalanche32 (unat x)"
proof -
  have mul: "unat (w * c) = unat w * unat c mod 2 ^ 32" for w c :: u32
    by (simp add: unat_word_ariths)
  show ?thesis
    by (simp only: phit_hash32_def avalanche32_def Let_def unat_xorshift mul) simp
qed

lemma unat_hash64: "unat (phit_hash64 x) = mix64 (unat x)"
proof -
  have mul: "unat (w * c) = unat w * unat c mod 2 ^ 64" for w c :: u64
    by (simp add: unat_word_ariths)
  show ?thesis
    by (simp only: phit_hash64_def mix64_def Let_def unat_xorshift mul) simp
qed

text \<open>
  C8. \<open>phit_hash32\<close> and \<open>phit_hash64\<close> are functions of their argument alone (they take
  and return no state), and they are bit-exact: read as unsigned numbers, their results
  are the documented sequences of multiplications and xor-shifts carried out modulo
  \<open>2 ^ 32\<close> and modulo \<open>2 ^ 64\<close>, with the constants 2654435761 (odd), 0x85EBCA6B,
  0xBF58476D1CE4E5B9 and 0x94D049BB133111EB and the shifts 16, 13 and 30, 27, 31.
\<close>

theorem hash_primitives_bit_exact:
  "phit_hash32 x = word_of_nat (avalanche32 (unat x))
   \<and> phit_hash64 y = word_of_nat (mix64 (unat y))
   \<and> unat (phit_hash32 x) = avalanche32 (unat x)
   \<and> unat (phit_hash64 y) = mix64 (unat y)
   \<and> avalanche32 (unat x) < 2 ^ 32
   \<and> mix64 (unat y) < 2 ^ 64
   \<and> odd (2654435761 :: nat)"
proof -
  have a: "unat (phit_hash32 x) = avalanche32 (unat x)"
    by (rule unat_hash32)
  have b: "unat (phit_hash64 y) = mix64 (unat y)"
    by (rule unat_hash64)
  have c: "phit_hash32 x = word_of_nat (avalanche32 (unat x))"
    by (simp flip: a)
  have d: "phit_hash64 y = word_of_nat (mix64 (unat y))"
    by (simp flip: b)
  have e: "avalanche32 (unat x) < 2 ^ 32"
    using unsigned_less [of "phit_hash32 x"] by (simp flip: a)
  have f: "mix64 (unat y) < 2 ^ 64"
    using unsigned_less [of "phit_hash64 y"] by (simp flip: b)
  have g: "odd (2654435761 :: nat)"
    by simp
  from a b c d e f g show ?thesis
    by blast
qed

section \<open>Feeding the pool\<close>

lemma phit_pool_feed_ref: "phit_pool_feed p sample = pool_feed_ref p sample"
proof -
  have r: "phit__rotl64 x 17 = word_rotl 17 x" for x
    by (rule rotl64_word_rotl) simp_all
  have "phit_pool_feed p sample =
      p\<lparr>pool := pool (pool_feed_ref p sample), mix_counter := mix_counter p + 1,
        bits_collected := bits_collected p + 2\<rparr>"
    by (simp only: phit_pool_feed_def pool_feed_ref_def phit_hash64_def Let_def nat_and3
        unat_and3 r phit_pool_t.simps)
  also have "\<dots> = pool_feed_ref p sample"
    by (simp add: pool_feed_ref_def Let_def)
  finally show ?thesis .
qed

text \<open>A form of \<open>phit_pool_feed\<close> that evaluates on concrete states.\<close>

lemma feed_unfold:
  "phit_pool_feed p sample =
     (let mc = mix_counter p + 1;
          z = phit_hash64 (sample + mc * 0x9E3779B97F4A7C15);
          slot = unat (mc AND 3);
          lanes1 = (pool p)[slot := pool p ! slot XOR z];
          nxt = (slot + 1) mod 4;
          lanes2 = lanes1[nxt := lanes1 ! nxt XOR phit__rotl64 (lanes1 ! slot) 17]
      in p\<lparr>pool := lanes2, mix_counter := mc, bits_collected := bits_collected p + 2\<rparr>)"
  by (simp only: phit_pool_feed_def phit_hash64_def Let_def nat_and3)

lemma pool_init_eval:
  "phit_pool_init = \<lparr>pool = [0, 0, 0, 0], mix_counter = 0, bits_collected = 0\<rparr>"
  by (simp add: phit_pool_init_def PHIT_POOL_LANES_def eval_nat_numeral)

lemma feed_1:
  "phit_pool_feed phit_pool_init 1 =
     \<lparr>pool = [0, 10451216379200822465, 6618340938899202580, 0],
      mix_counter = 1, bits_collected = 2\<rparr>"
  by (simp add: pool_init_eval feed_unfold phit__rotl64_def phit_hash64_def)

lemma feed_2:
  "phit_pool_feed
     \<lparr>pool = [0, 10451216379200822465, 6618340938899202580, 0],
      mix_counter = 1, bits_collected = 2\<rparr> 2 =
     \<lparr>pool = [0, 10451216379200822465, 16434008963122412630, 12117327316526155810],
      mix_counter = 2, bits_collected = 4\<rparr>"
  by (simp add: feed_unfold phit__rotl64_def phit_hash64_def)

lemma feed_3:
  "phit_pool_feed
     \<lparr>pool = [0, 10451216379200822465, 16434008963122412630, 12117327316526155810],
      mix_counter = 2, bits_collected = 4\<rparr> 3 =
     \<lparr>pool = [1779293462680988037, 10451216379200822465, 16434008963122412630,
        3801755347874288931],
      mix_counter = 3, bits_collected = 6\<rparr>"
  by (simp add: feed_unfold phit__rotl64_def phit_hash64_def)

lemma feed_mix_counter: "mix_counter (phit_pool_feed p sample) = mix_counter p + 1"
  by (simp add: phit_pool_feed_ref pool_feed_ref_def Let_def)

lemma feed_bits_collected: "bits_collected (phit_pool_feed p sample) = bits_collected p + 2"
  by (simp add: phit_pool_feed_ref pool_feed_ref_def Let_def)

lemma feed_length: "length (pool (phit_pool_feed p sample)) = length (pool p)"
  by (simp add: phit_pool_feed_ref pool_feed_ref_def Let_def)

lemma sint_plus2: "sint b < 2 ^ 31 - 2 \<Longrightarrow> sint (b + 2) = sint b + 2" for b :: c_int
proof -
  assume lt: "sint b < 2 ^ 31 - 2"
  have "sint (b + 2) = signed_take_bit 31 (sint b + 2)"
    by (simp add: sint_word_ariths)
  also have "\<dots> = sint b + 2"
    using lt sint_ge [of b] by (intro signed_take_bit_int_eq_self) simp_all
  finally show ?thesis .
qed

text \<open>
  C3. One feed increments the mix counter, mixes \<open>sample + mix_counter * 0x9E3779B97F4A7C15\<close>
  with the 64-bit hash, xors the result into lane \<open>mix_counter mod 4\<close>, xors the 17-bit
  left rotation of that lane's new value into lane \<open>(slot + 1) mod 4\<close> and adds 2 to
  \<open>bits_collected\<close> (as an \<open>int\<close>, as long as the addition does not overflow). From the
  zeroed pool, the feeds of 1, 2 and 3 leave the lanes and counters computed by an
  independent evaluation of this description.
\<close>

theorem phit_pool_feed_bit_exact:
  "phit_pool_feed p sample = pool_feed_ref p sample
   \<and> mix_counter (phit_pool_feed p sample) = mix_counter p + 1
   \<and> bits_collected (phit_pool_feed p sample) = bits_collected p + 2
   \<and> (sint (bits_collected p) < 2 ^ 31 - 2 \<longrightarrow>
        sint (bits_collected (phit_pool_feed p sample)) = sint (bits_collected p) + 2)
   \<and> phit_pool_feed (phit_pool_feed (phit_pool_feed phit_pool_init 1) 2) 3 =
       \<lparr>pool = [1779293462680988037, 10451216379200822465, 16434008963122412630,
          3801755347874288931],
        mix_counter = 3, bits_collected = 6\<rparr>"
proof -
  have "phit_pool_feed (phit_pool_feed (phit_pool_feed phit_pool_init 1) 2) 3 =
       \<lparr>pool = [1779293462680988037, 10451216379200822465, 16434008963122412630,
          3801755347874288931],
        mix_counter = 3, bits_collected = 6\<rparr>"
    by (simp only: feed_1 feed_2 feed_3)
  then show ?thesis
    using phit_pool_feed_ref [of p sample] feed_mix_counter [of p sample]
      feed_bits_collected [of p sample] sint_plus2 [of "bits_collected p"]
    by simp
qed

theorem phit_pool_feed_bit_exact_witness:
  "sint (bits_collected phit_pool_init) < 2 ^ 31 - 2
   \<and> phit_pool_feed phit_pool_init 1 = pool_feed_ref phit_pool_init 1
   \<and> sint (bits_collected (phit_pool_feed phit_pool_init 1)) =
       sint (bits_collected phit_pool_init) + 2
   \<and> sint (bits_collected (phit_pool_feed phit_pool_init 1)) = 2"
proof -
  note t = phit_pool_feed_bit_exact [of phit_pool_init 1]
  have h: "sint (bits_collected phit_pool_init) < 2 ^ 31 - 2"
    by (simp add: phit_pool_init_def)
  have a: "phit_pool_feed phit_pool_init 1 = pool_feed_ref phit_pool_init 1"
    using t by (rule conjunct1)
  have c: "sint (bits_collected (phit_pool_feed phit_pool_init 1)) =
      sint (bits_collected phit_pool_init) + 2"
    using t h by blast
  have d: "sint (bits_collected (phit_pool_feed phit_pool_init 1)) = 2"
    unfolding c by (simp add: phit_pool_init_def)
  from h a c d show ?thesis
    by blast
qed

section \<open>The mix counter\<close>

lemma harvest_mix_counter:
  "mix_counter (fst (phit_pool_harvest p w)) = mix_counter p + 2"
  by (simp add: phit_pool_harvest_def Let_def feed_mix_counter)

lemma harvest_loop_mix_counter:
  "mix_counter (fst (harvest_loop n p w)) = mix_counter p + 2 * of_nat n"
  by (induction n arbitrary: p w) (simp_all add: Let_def harvest_mix_counter algebra_simps)

lemma extract_mix_counter:
  "mix_counter (fst (snd (phit_pool_extract p w))) = mix_counter p + 8"
  by (simp add: phit_pool_extract_def Let_def harvest_loop_mix_counter PHIT_POOL_LANES_def)

lemma word_less_plus:
  fixes a :: u64
  assumes "0 < k" "unat a + k < 2 ^ 64"
  shows "a < a + of_nat k"
proof -
  have k: "unat (of_nat k :: u64) = k"
    using assms by (simp add: unat_of_nat)
  then have "unat (a + of_nat k) = unat a + k"
    using assms unat_add_lem [of a "of_nat k"] by simp
  then show ?thesis
    using assms by (simp add: word_less_nat_alt)
qed

text \<open>
  C9. Each feed adds exactly 1 to the mix counter, each harvest 2 and each extraction 8,
  in 64-bit arithmetic; no pool operation stores any other value in it. So the counter
  strictly increases over a feed unless it holds \<open>2 ^ 64 - 1\<close>, over a harvest and an
  extraction unless the addition passes \<open>2 ^ 64\<close>, and two successive extractions on
  the same pool leave strictly increasing counter values.
\<close>

theorem mix_counter_strictly_increases:
  "mix_counter (phit_pool_feed p sample) = mix_counter p + 1
   \<and> mix_counter (fst (phit_pool_harvest p w)) = mix_counter p + 2
   \<and> mix_counter (fst (snd (phit_pool_extract p w))) = mix_counter p + 8
   \<and> (mix_counter p \<noteq> - 1 \<longrightarrow> mix_counter p < mix_counter (phit_pool_feed p sample))
   \<and> (mix_counter p = - 1 \<longrightarrow> mix_counter (phit_pool_feed p sample) = 0)
   \<and> (unat (mix_counter p) + 2 < 2 ^ 64 \<longrightarrow>
        mix_counter p < mix_counter (fst (phit_pool_harvest p w)))
   \<and> (unat (mix_counter p) + 8 < 2 ^ 64 \<longrightarrow>
        mix_counter p < mix_counter (fst (snd (phit_pool_extract p w))))
   \<and> (unat (mix_counter p) + 16 < 2 ^ 64 \<longrightarrow>
        mix_counter (fst (snd (phit_pool_extract p w))) <
        mix_counter (fst (snd (phit_pool_extract (fst (snd (phit_pool_extract p w)))
          (snd (snd (phit_pool_extract p w)))))))"
proof -
  let ?c = "mix_counter p"
  have f: "?c \<noteq> - 1 \<longrightarrow> ?c < ?c + 1"
  proof
    assume "?c \<noteq> - 1"
    then have "unat ?c \<noteq> unat (- 1 :: u64)"
      by (simp only: word_unat_eq_iff not_False_eq_True)
    moreover have "unat ?c < 2 ^ 64"
      using unsigned_less [of ?c] by simp
    ultimately have "unat ?c + 1 < 2 ^ 64"
      by (simp add: unsigned_minus_1_eq_mask mask_eq_exp_minus_1)
    then show "?c < ?c + 1"
      using word_less_plus [of 1 ?c] by simp
  qed
  have h: "unat ?c + 2 < 2 ^ 64 \<longrightarrow> ?c < ?c + 2"
    using word_less_plus [of 2 ?c] by simp
  have e: "unat ?c + 8 < 2 ^ 64 \<longrightarrow> ?c < ?c + 8"
    using word_less_plus [of 8 ?c] by simp
  have s: "unat ?c + 16 < 2 ^ 64 \<longrightarrow> ?c + 8 < ?c + 8 + 8"
  proof
    assume b: "unat ?c + 16 < 2 ^ 64"
    then have "unat (?c + 8) = unat ?c + 8"
      using unat_add_lem [of ?c 8] by simp
    with b show "?c + 8 < ?c + 8 + 8"
      using word_less_plus [of 8 "?c + 8"] by simp
  qed
  show ?thesis
    using f h e s
    by (simp add: feed_mix_counter harvest_mix_counter extract_mix_counter)
qed

theorem mix_counter_strictly_increases_witness:
  "mix_counter phit_pool_init \<noteq> - 1
   \<and> unat (mix_counter phit_pool_init) + 16 < 2 ^ 64
   \<and> mix_counter phit_pool_init < mix_counter (phit_pool_feed phit_pool_init 0)
   \<and> mix_counter phit_pool_init < mix_counter (fst (phit_pool_harvest phit_pool_init still_world))
   \<and> mix_counter phit_pool_init <
       mix_counter (fst (snd (phit_pool_extract phit_pool_init still_world)))
   \<and> mix_counter (fst (snd (phit_pool_extract phit_pool_init still_world))) <
       mix_counter (fst (snd (phit_pool_extract
         (fst (snd (phit_pool_extract phit_pool_init still_world)))
         (snd (snd (phit_pool_extract phit_pool_init still_world))))))"
proof -
  note t = mix_counter_strictly_increases [of phit_pool_init 0 still_world]
  have a: "mix_counter phit_pool_init \<noteq> - 1"
    by (simp add: phit_pool_init_def)
  have b: "unat (mix_counter phit_pool_init) + 16 < 2 ^ 64"
    by (simp add: phit_pool_init_def)
  then have c: "unat (mix_counter phit_pool_init) + 2 < 2 ^ 64"
    and d: "unat (mix_counter phit_pool_init) + 8 < 2 ^ 64"
    by simp_all
  from t a b c d show ?thesis
    by blast
qed

section \<open>Harvest and extraction\<close>

lemma harvest_unfold:
  "phit_pool_harvest p w =
     (pool_harvest_ref p (clock w (reads w)) (harvest_workload 20 0xCAFEBABE),
      w\<lparr>reads := Suc (reads w), phit__sink := harvest_workload 20 0xCAFEBABE\<rparr>)"
  by (simp add: phit_pool_harvest_def pool_harvest_ref_def phit_now_ns_def Let_def
      PHIT_WORKLOAD_ITERS_def xor.commute)

lemma harvest_loop_4:
  "harvest_loop PHIT_POOL_LANES p w =
     (let x = harvest_workload 20 0xCAFEBABE;
          p1 = pool_harvest_ref p (clock w (reads w)) x;
          p2 = pool_harvest_ref p1 (clock w (reads w + 1)) x;
          p3 = pool_harvest_ref p2 (clock w (reads w + 2)) x;
          p4 = pool_harvest_ref p3 (clock w (reads w + 3)) x
      in (p4, w\<lparr>reads := reads w + 4, phit__sink := x\<rparr>))"
proof -
  have "harvest_loop (Suc (Suc (Suc (Suc 0)))) p w =
     (let x = harvest_workload 20 0xCAFEBABE;
          p1 = pool_harvest_ref p (clock w (reads w)) x;
          p2 = pool_harvest_ref p1 (clock w (reads w + 1)) x;
          p3 = pool_harvest_ref p2 (clock w (reads w + 2)) x;
          p4 = pool_harvest_ref p3 (clock w (reads w + 3)) x
      in (p4, w\<lparr>reads := reads w + 4, phit__sink := x\<rparr>))"
    by (simp add: harvest_unfold Let_def numeral_3_eq_3)
  moreover have "PHIT_POOL_LANES = Suc (Suc (Suc (Suc 0)))"
    by (simp add: PHIT_POOL_LANES_def)
  ultimately show ?thesis
    by (simp only:)
qed

lemma extract_unfold: "phit_pool_extract p w = pool_extract_ref p w"
proof -
  define x where "x = harvest_workload 20 0xCAFEBABE"
  define p4 where "p4 =
    pool_harvest_ref (pool_harvest_ref (pool_harvest_ref (pool_harvest_ref p
      (clock w (reads w)) x) (clock w (reads w + 1)) x) (clock w (reads w + 2)) x)
      (clock w (reads w + 3)) x"
  define out where "out = pool p4 ! 0 XOR word_rotl 13 (pool p4 ! 1)
      XOR word_rotl 29 (pool p4 ! 2) XOR word_rotl 43 (pool p4 ! 3)"
  have r: "phit__rotl64 y 7 = word_rotl 7 y" "phit__rotl64 y 13 = word_rotl 13 y"
    "phit__rotl64 y 23 = word_rotl 23 y" "phit__rotl64 y 29 = word_rotl 29 y"
    "phit__rotl64 y 43 = word_rotl 43 y" for y
    by (simp_all add: rotl64_word_rotl)
  have hl: "harvest_loop PHIT_POOL_LANES p w = (p4, w\<lparr>reads := reads w + 4, phit__sink := x\<rparr>)"
    by (simp only: harvest_loop_4 Let_def p4_def x_def)
  have "phit_pool_extract p w =
      (out, p4\<lparr>pool := (pool p4)[0 := pool p4 ! 0 XOR word_rotl 7 out,
                                 1 := pool p4 ! 1 XOR word_rotl 23 out]\<rparr>,
       w\<lparr>reads := reads w + 4, phit__sink := x\<rparr>)"
    unfolding phit_pool_extract_def hl r by (simp add: Let_def out_def xor.assoc)
  also have "\<dots> = pool_extract_ref p w"
    by (simp only: pool_extract_ref_def Let_def out_def p4_def x_def)
  finally show ?thesis .
qed


lemma harvest_loop_length: "length (pool (fst (harvest_loop n p w))) = length (pool p)"
  by (induction n arbitrary: p w)
    (simp_all add: Let_def harvest_unfold pool_harvest_ref_def feed_length)

text \<open>
  C1. An extraction always returns. It runs the harvest four times, each on one new
  timer value \<open>t\<close> with the fixed workload result \<open>x\<close>, feeding \<open>t\<close> and then
  \<open>t XOR x\<close>; its output is lane 0 xor the rotations by 13, 29 and 43 of lanes 1, 2 and 3
  as the harvests leave them; it then xors the rotations by 7 and 23 of the output into
  lanes 0 and 1 and returns the output. Four timer values are consumed and eight feeds
  made.
\<close>

theorem phit_pool_extract_effect:
  "phit_pool_extract p w = pool_extract_ref p w
   \<and> reads (snd (snd (phit_pool_extract p w))) = reads w + 4
   \<and> mix_counter (fst (snd (phit_pool_extract p w))) = mix_counter p + 8
   \<and> phit_pool_harvest p w =
       (phit_pool_feed (phit_pool_feed p (clock w (reads w)))
          (clock w (reads w) XOR harvest_workload PHIT_WORKLOAD_ITERS 0xCAFEBABE),
        w\<lparr>reads := reads w + 1,
          phit__sink := harvest_workload PHIT_WORKLOAD_ITERS 0xCAFEBABE\<rparr>)"
proof -
  have a: "phit_pool_extract p w = pool_extract_ref p w"
    by (rule extract_unfold)
  have b: "reads (snd (snd (pool_extract_ref p w))) = reads w + 4"
    by (simp add: pool_extract_ref_def Let_def)
  have c: "mix_counter (fst (snd (phit_pool_extract p w))) = mix_counter p + 8"
    by (rule extract_mix_counter)
  have d: "phit_pool_harvest p w =
       (phit_pool_feed (phit_pool_feed p (clock w (reads w)))
          (clock w (reads w) XOR harvest_workload PHIT_WORKLOAD_ITERS 0xCAFEBABE),
        w\<lparr>reads := reads w + 1,
          phit__sink := harvest_workload PHIT_WORKLOAD_ITERS 0xCAFEBABE\<rparr>)"
    by (simp add: harvest_unfold pool_harvest_ref_def PHIT_WORKLOAD_ITERS_def)
  from b have b': "reads (snd (snd (phit_pool_extract p w))) = reads w + 4"
    by (simp only: a)
  from a b' c d show ?thesis
    by blast
qed

text \<open>
  C2. Forward secrecy step. Whenever the output of an extraction is not zero, the
  rotations by 7 and by 23 of the output are not zero either, and lanes 0 and 1 of the
  pool the extraction leaves differ from lanes 0 and 1 as the four harvests left them:
  they are the old values xor those rotations. Lanes 2 and 3 are not touched by this
  step. A rotation of the output is zero exactly when the output is.
\<close>

theorem extract_forward_secrecy:
  assumes len: "length (pool p) = PHIT_POOL_LANES"
    and nz: "fst (phit_pool_extract p w) \<noteq> 0"
  shows "pool (fst (snd (phit_pool_extract p w))) ! 0 \<noteq>
           pool (fst (harvest_loop PHIT_POOL_LANES p w)) ! 0
       \<and> pool (fst (snd (phit_pool_extract p w))) ! 1 \<noteq>
           pool (fst (harvest_loop PHIT_POOL_LANES p w)) ! 1
       \<and> pool (fst (snd (phit_pool_extract p w))) ! 0 =
           pool (fst (harvest_loop PHIT_POOL_LANES p w)) ! 0 XOR
           phit__rotl64 (fst (phit_pool_extract p w)) 7
       \<and> pool (fst (snd (phit_pool_extract p w))) ! 1 =
           pool (fst (harvest_loop PHIT_POOL_LANES p w)) ! 1 XOR
           phit__rotl64 (fst (phit_pool_extract p w)) 23
       \<and> pool (fst (snd (phit_pool_extract p w))) ! 2 =
           pool (fst (harvest_loop PHIT_POOL_LANES p w)) ! 2
       \<and> pool (fst (snd (phit_pool_extract p w))) ! 3 =
           pool (fst (harvest_loop PHIT_POOL_LANES p w)) ! 3
       \<and> (phit__rotl64 v 7 = 0) = (v = 0)
       \<and> (phit__rotl64 v 23 = 0) = (v = 0)"
proof -
  define p4 where "p4 = fst (harvest_loop PHIT_POOL_LANES p w)"
  define out where "out = fst (phit_pool_extract p w)"
  have l4: "length (pool p4) = 4"
    using len by (simp add: p4_def harvest_loop_length PHIT_POOL_LANES_def)
  have lanes: "pool (fst (snd (phit_pool_extract p w))) =
      (pool p4)[0 := pool p4 ! 0 XOR phit__rotl64 out 7,
                1 := pool p4 ! 1 XOR phit__rotl64 out 23]"
    by (simp add: phit_pool_extract_def Let_def p4_def out_def)
  have r7: "(phit__rotl64 y 7 = 0) = (y = 0)" and r23: "(phit__rotl64 y 23 = 0) = (y = 0)" for y
    by (simp_all add: rotl64_eq_0_iff)
  have x: "(a XOR b \<noteq> a) = (b \<noteq> 0)" for a b :: u64
  proof -
    have "b = 0" if e: "a XOR b = a"
    proof -
      have "b = a XOR (a XOR b)"
        by (simp flip: xor.assoc)
      then show ?thesis
        by (simp add: e)
    qed
    then show ?thesis
      by auto
  qed
  have n0: "pool (fst (snd (phit_pool_extract p w))) ! 0 = pool p4 ! 0 XOR phit__rotl64 out 7"
    unfolding lanes using l4 by simp
  have n1: "pool (fst (snd (phit_pool_extract p w))) ! 1 = pool p4 ! 1 XOR phit__rotl64 out 23"
    unfolding lanes using l4 by simp
  have n2: "pool (fst (snd (phit_pool_extract p w))) ! 2 = pool p4 ! 2"
    unfolding lanes by simp
  have n3: "pool (fst (snd (phit_pool_extract p w))) ! 3 = pool p4 ! 3"
    unfolding lanes by simp
  have d0: "pool (fst (snd (phit_pool_extract p w))) ! 0 \<noteq> pool p4 ! 0"
    unfolding n0 x r7 using nz by (simp add: out_def)
  have d1: "pool (fst (snd (phit_pool_extract p w))) ! 1 \<noteq> pool p4 ! 1"
    unfolding n1 x r23 using nz by (simp add: out_def)
  from d0 d1 n0 n1 n2 n3 r7 [of v] r23 [of v] show ?thesis
    unfolding p4_def out_def by blast
qed

theorem extract_forward_secrecy_witness:
  "length (pool phit_pool_init) = PHIT_POOL_LANES
   \<and> fst (phit_pool_extract phit_pool_init still_world) \<noteq> 0
   \<and> pool (fst (snd (phit_pool_extract phit_pool_init still_world))) ! 0 \<noteq>
       pool (fst (harvest_loop PHIT_POOL_LANES phit_pool_init still_world)) ! 0
   \<and> pool (fst (snd (phit_pool_extract phit_pool_init still_world))) ! 1 \<noteq>
       pool (fst (harvest_loop PHIT_POOL_LANES phit_pool_init still_world)) ! 1"
proof -
  have len: "length (pool phit_pool_init) = PHIT_POOL_LANES"
    by (simp add: phit_pool_init_def)
  have nz: "fst (phit_pool_extract phit_pool_init still_world) \<noteq> 0"
    by code_simp
  from extract_forward_secrecy [OF len nz, of 0] len nz show ?thesis
    by blast
qed

section \<open>Arguments of zero\<close>

text \<open>
  C4, as the code has it. \<open>phit_prng_range\<close> called with \<open>max = 0\<close> takes its guard: it
  returns 0 at once, draws no value and leaves the generator and the world as they
  were. Nothing is signalled.
\<close>

theorem phit_prng_range_zero_returns_zero:
  "phit_prng_range rng 0 w = (0, rng, w)"
  by (simp add: phit_prng_range_def)

theorem phit_prng_range_zero_counterexample:
  "phit_prng_range zero_prng 0 still_world = (0, zero_prng, still_world)"
  by (simp add: phit_prng_range_def)

text \<open>\<open>phit_route\<close> has no such guard: with \<open>num_destinations = 0\<close> it reaches the
  remainder by zero.\<close>

lemma phit_route_zero_undefined: "phit_route 0 w = None"
  by (simp add: phit_route_def)

text \<open>
  C6, as the code has it. \<open>phit_sample_compound\<close> does not check \<open>num_reads\<close>: with
  \<open>num_reads = 0\<close> the loop body never runs, no timer value is read, and the result is
  the hash of the empty accumulator, \<open>phit_hash32 0 = 0\<close>.
\<close>

theorem phit_sample_compound_zero_reads:
  "phit_sample_compound 0 w = (phit_hash32 0, w) \<and> phit_hash32 0 = 0"
  by (simp add: phit_sample_compound_def compound_loop.simps [of 0 0] phit_hash32_def)

theorem phit_sample_compound_zero_counterexample:
  "phit_sample_compound 0 still_world = (0, still_world)"
  by (simp add: phit_sample_compound_def compound_loop.simps [of 0 0] phit_hash32_def)

section \<open>Routing\<close>

lemma sint_eq_uint_small:
  fixes r :: c_int
  assumes "uint r < 2 ^ 31"
  shows "sint r = uint r"
proof -
  have "sint r = signed_take_bit 31 (uint r)"
    by (simp add: sint_uint)
  also have "\<dots> = uint r"
  proof (rule signed_take_bit_int_eq_self)
    show "- (2 ^ 31) \<le> uint r"
      by (rule order_trans [of _ 0]) simp_all
    show "uint r < 2 ^ 31"
      by (rule assms)
  qed
  finally show ?thesis .
qed

lemma pos_sint_uint:
  fixes k :: c_int
  assumes "0 <s k"
  shows "uint k < 2 ^ 31" and "sint k = uint k" and "k \<noteq> 0"
proof -
  from assms have pos: "0 < sint k"
    by (simp add: word_sless_alt)
  show small: "uint k < 2 ^ 31"
  proof (rule ccontr)
    assume "\<not> uint k < 2 ^ 31"
    then have "2 ^ 31 \<le> uint k"
      by simp
    then have "signed_take_bit 31 (uint k) \<le> uint k - 4294967296"
      using signed_take_bit_int_less_eq [of 31 "uint k"] by simp
    moreover have "uint k < 4294967296"
      using uint_lt2p [of k] by simp
    moreover have "sint k = signed_take_bit 31 (uint k)"
      by (simp add: sint_uint)
    ultimately have "sint k < 0"
      by linarith
    with pos show False
      by simp
  qed
  then show "sint k = uint k"
    by (rule sint_eq_uint_small)
  from pos show "k \<noteq> 0"
    by auto
qed

text \<open>
  C5. For every \<open>num_destinations > 0\<close>, \<open>phit_route\<close> returns: its value is the compound
  sample of two reads taken modulo \<open>num_destinations\<close>, and as an \<open>int\<close> it is at least 0
  and strictly less than \<open>num_destinations\<close>.
\<close>

theorem phit_route_in_range:
  assumes "0 <s k"
  shows "phit_route k w =
           Some (fst (phit_sample_compound 2 w) mod k, snd (phit_sample_compound 2 w))
       \<and> 0 \<le>s fst (phit_sample_compound 2 w) mod k
       \<and> fst (phit_sample_compound 2 w) mod k <s k
       \<and> 0 \<le> sint (fst (phit_sample_compound 2 w) mod k)
       \<and> sint (fst (phit_sample_compound 2 w) mod k) < sint k"
proof -
  define r where "r = fst (phit_sample_compound 2 w) mod k"
  note k = pos_sint_uint [OF assms]
  have "0 < k"
    using k(3) by (simp add: word_greater_zero_iff)
  then have "r < k"
    unfolding r_def by (rule word_mod_less_divisor)
  then have lt: "uint r < uint k"
    by (simp add: word_less_alt)
  with k(1) have r: "sint r = uint r"
    by (intro sint_eq_uint_small) simp
  have a: "phit_route k w = Some (r, snd (phit_sample_compound 2 w))"
    using k(3) by (simp add: phit_route_def r_def Let_def)
  have b: "0 \<le> sint r" "sint r < sint k"
    using r lt k(2) by simp_all
  then have c: "0 \<le>s r" "r <s k"
    by (simp_all add: word_sle_eq word_sless_alt)
  from a b c show ?thesis
    unfolding r_def by blast
qed

theorem phit_route_in_range_witness:
  "0 <s (8 :: c_int)
   \<and> phit_route 8 still_world =
       Some (fst (phit_sample_compound 2 still_world) mod 8,
             snd (phit_sample_compound 2 still_world))
   \<and> 0 \<le> sint (fst (phit_sample_compound 2 still_world) mod 8)
   \<and> sint (fst (phit_sample_compound 2 still_world) mod 8) < sint (8 :: c_int)"
proof -
  have h: "0 <s (8 :: c_int)"
    by (simp add: word_sless_alt)
  from phit_route_in_range [OF h, of still_world] h show ?thesis
    by blast
qed

section \<open>Compound sampling\<close>


lemma key_build:
  "(ucast ((t AND 3) OR
      ucast (push_bit 2 ((ucast (drop_bit 2 t) :: u32) XOR (ucast x :: u32)))) :: u32) =
   basic_key t x"
  unfolding basic_key_def
  by (rule bit_word_eqI) (auto simp add: bit_simps)

lemma rotl32_7: "push_bit 7 k OR drop_bit 25 k = word_rotl 7 k" for k :: u32
  using shift_or_is_rotl [of 7 k] by simp

lemma nonneg_c_int:
  fixes i :: c_int
  assumes "0 \<le> sint i"
  shows "(scast i :: u64) = of_nat (nat (sint i))" and "i = of_nat (nat (sint i))"
proof -
  have n: "int (nat (sint i)) = sint i"
    using assms by simp
  have "(of_nat (nat (sint i)) :: u64) = of_int (int (nat (sint i)))"
    by (simp only: of_int_of_nat_eq)
  also have "\<dots> = scast i"
    by (simp only: n scast_eq)
  finally show "(scast i :: u64) = of_nat (nat (sint i))"
    by (rule sym)
  have "(of_nat (nat (sint i)) :: c_int) = of_int (int (nat (sint i)))"
    by (simp only: of_int_of_nat_eq)
  also have "\<dots> = i"
    by (simp only: n) simp
  finally show "i = of_nat (nat (sint i))"
    by (rule sym)
qed

lemma sint_succ:
  fixes i n :: c_int
  assumes "i <s n"
  shows "sint (i + 1) = sint i + 1"
proof -
  have "sint (i + 1) = signed_take_bit 31 (sint i + 1)"
    by (simp add: sint_word_ariths)
  also have "\<dots> = sint i + 1"
    using assms sint_ge [of i] sint_lt [of n]
    by (intro signed_take_bit_int_eq_self) (simp_all add: word_sless_alt)
  finally show ?thesis .
qed

lemma compound_loop_fold:
  "0 \<le> sint i \<Longrightarrow> sint i \<le> sint n \<Longrightarrow> reads w = base + nat (sint i) \<Longrightarrow>
   fst (compound_loop i n key w) =
     foldl (fold_hashed (clock w) base) key [nat (sint i)..<nat (sint n)]
   \<and> reads (snd (compound_loop i n key w)) = base + nat (sint n)
   \<and> clock (snd (compound_loop i n key w)) = clock w"
proof (induction i n key w rule: compound_loop.induct)
  case (1 i n key w)
  show ?case
  proof (cases "i <s n")
    case False
    with "1.prems" have "sint i = sint n"
      by (simp add: word_sless_alt)
    with False "1.prems" show ?thesis
      by (simp add: compound_loop.simps [of i n])
  next
    case True
    define j where "j = nat (sint i)"
    define x where "x = sample_workload 10 (0xDEADBEEF XOR ((scast i :: u64) * 0x9E3779B97F4A7C15))"
    define w1 where "w1 = w\<lparr>phit__sink := x\<rparr>"
    define t where "t = fst (phit_now_ns w1)"
    define w2 where "w2 = snd (phit_now_ns w1)"
    define sample where "sample = (ucast ((t AND 3) OR
        ucast (push_bit 2 ((ucast (drop_bit 2 t) :: u32) XOR (ucast x :: u32)))) :: u32)"
    define key1 where "key1 = key XOR phit_hash32 (sample + i)"
    define key2 where "key2 = push_bit 7 key1 OR drop_bit 25 key1"
    have step: "compound_loop i n key w = compound_loop (i + 1) n key2 w2"
      using True
      by (subst compound_loop.simps)
        (simp add: Let_def x_def w1_def t_def w2_def sample_def key1_def key2_def)
    have s: "sint (i + 1) = sint i + 1"
      using True by (rule sint_succ)
    have lt: "sint i < sint n"
      using True by (simp add: word_sless_alt)
    have w2: "reads w2 = base + nat (sint (i + 1))" "clock w2 = clock w"
      using "1.prems" s by (simp_all add: w2_def w1_def phit_now_ns_def)
    have tt: "t = clock w (base + j)"
      using "1.prems" by (simp add: t_def w1_def phit_now_ns_def j_def)
    have sc: "(scast i :: u64) = of_nat j"
      unfolding j_def using "1.prems"(1) by (rule nonneg_c_int(1))
    have xx: "x = sample_workload 10 (compound_seed j)"
      by (simp only: x_def compound_seed_def sc)
    have ii: "i = of_nat j"
      unfolding j_def using "1.prems"(1) by (rule nonneg_c_int(2))
    have k2: "key2 = fold_hashed (clock w) base key j"
      unfolding key2_def key1_def rotl32_7 fold_hashed_def sample_def key_build
      by (simp only: tt [symmetric] xx [symmetric] ii [symmetric])
    have ih: "fst (compound_loop (i + 1) n key2 w2) =
        foldl (fold_hashed (clock w2) base) key2 [nat (sint (i + 1))..<nat (sint n)]
      \<and> reads (snd (compound_loop (i + 1) n key2 w2)) = base + nat (sint n)
      \<and> clock (snd (compound_loop (i + 1) n key2 w2)) = clock w2"
      using True "1.prems" s lt w2(1)
      by (intro "1.IH" [OF True x_def w1_def t_def w2_def sample_def key1_def key2_def]) simp_all
    have sj: "nat (sint (i + 1)) = Suc j"
      unfolding s j_def using "1.prems"(1) by (simp add: nat_add_distrib)
    have "j < nat (sint n)"
      unfolding j_def using "1.prems"(1) lt by simp
    then have "[j..<nat (sint n)] = j # [Suc j..<nat (sint n)]"
      by (rule upt_conv_Cons)
    then have up: "[nat (sint i)..<nat (sint n)] = j # [nat (sint (i + 1))..<nat (sint n)]"
      by (simp only: sj j_def)
    show ?thesis
      unfolding step up using ih by (simp add: w2(2) k2)
  qed
qed


text \<open>
  C7, as the code has it. \<open>phit_sample_compound n\<close> makes \<open>N = n\<close> folds (none when
  \<open>n \<le> 0\<close>) and reads the timer once per fold. Fold \<open>i\<close> runs the workload seeded with
  \<open>0xDEADBEEF XOR i * 0x9E3779B97F4A7C15\<close>, builds the 32-bit key of the basic sample
  from the timer value and the workload result, adds \<open>i\<close>, applies the avalanche hash
  to that sum, xors the hash into the accumulator and rotates the accumulator left by
  7 bits. After the folds the avalanche hash is applied once more to the accumulator.
\<close>

theorem phit_sample_compound_fold:
  "fst (phit_sample_compound n w) = compound_hashed (nat (sint n)) w
   \<and> reads (snd (phit_sample_compound n w)) = reads w + nat (sint n)
   \<and> clock (snd (phit_sample_compound n w)) = clock w"
proof (cases "0 \<le> sint n")
  case True
  then have "fst (compound_loop 0 n 0 w) =
      foldl (fold_hashed (clock w) (reads w)) 0 [nat (sint (0 :: c_int))..<nat (sint n)]
    \<and> reads (snd (compound_loop 0 n 0 w)) = reads w + nat (sint n)
    \<and> clock (snd (compound_loop 0 n 0 w)) = clock w"
    by (intro compound_loop_fold) simp_all
  then show ?thesis
    by (simp add: phit_sample_compound_def compound_hashed_def Let_def)
next
  case False
  then have "\<not> 0 <s n"
    by (simp add: word_sless_alt)
  then have "compound_loop 0 n 0 w = (0, w)"
    by (simp add: compound_loop.simps [of 0 n])
  with False show ?thesis
    by (simp add: phit_sample_compound_def compound_hashed_def Let_def)
qed

theorem phit_sample_compound_counterexample:
  "fst (phit_sample_compound 1 still_world) \<noteq> compound_documented 1 still_world"
  by code_simp

section \<open>Filling a buffer\<close>

lemma prng_outputs_length: "length (fst (prng_outputs k rng w)) = k"
  by (induction k arbitrary: rng w) (simp_all add: Let_def)

lemma prng_outputs_snoc:
  "prng_outputs (Suc k) rng w =
     (fst (prng_outputs k rng w) @
        [fst (phit_prng_u64 (fst (snd (prng_outputs k rng w))) (snd (snd (prng_outputs k rng w))))],
      snd (phit_prng_u64 (fst (snd (prng_outputs k rng w))) (snd (snd (prng_outputs k rng w)))))"
proof (induction k arbitrary: rng w)
  case 0
  show ?case
    by (simp add: Let_def)
next
  case (Suc k)
  define r where "r = phit_prng_u64 rng w"
  define O1 where "O1 = prng_outputs k (fst (snd r)) (snd (snd r))"
  define r' where "r' = phit_prng_u64 (fst (snd O1)) (snd (snd O1))"
  have A: "prng_outputs (Suc k) rng w = (fst r # fst O1, snd O1)"
    by (simp add: Let_def r_def O1_def)
  have B: "prng_outputs (Suc (Suc k)) rng w =
      (fst r # fst (prng_outputs (Suc k) (fst (snd r)) (snd (snd r))),
       snd (prng_outputs (Suc k) (fst (snd r)) (snd (snd r))))"
    by (subst prng_outputs.simps(2)) (simp only: Let_def r_def)
  have C: "prng_outputs (Suc k) (fst (snd r)) (snd (snd r)) = (fst O1 @ [fst r'], snd r')"
    by (simp only: Suc.IH O1_def r'_def)
  have "prng_outputs (Suc (Suc k)) rng w = ((fst r # fst O1) @ [fst r'], snd r')"
    unfolding B C by simp
  then show ?case
    unfolding A r'_def by simp
qed

lemma u64_generated:
  "generated (fst (snd (phit_prng_u64 rng w))) = generated rng + 1"
  by (simp add: phit_prng_u64_def Let_def)

lemma u64_reads: "reads (snd (snd (phit_prng_u64 rng w))) = reads w + 4"
  by (simp add: phit_prng_u64_def Let_def extract_unfold pool_extract_ref_def)

lemma prng_outputs_generated:
  "generated (fst (snd (prng_outputs k rng w))) = generated rng + of_nat k"
  by (induction k arbitrary: rng w) (simp_all add: Let_def u64_generated)

lemma prng_outputs_reads:
  "reads (snd (snd (prng_outputs k rng w))) = reads w + 4 * k"
  by (induction k arbitrary: rng w) (simp_all add: Let_def u64_reads)

lemma fill_mem_Cons:
  "fill_mem (v # vs) mem p (8 + n) = fill_mem vs (memcpy_u64 mem p v 8) (p + 8) n"
proof
  fix a
  consider "a < p" | "p \<le> a" "a < p + 8" | "p + 8 \<le> a"
    by linarith
  then show "fill_mem (v # vs) mem p (8 + n) a = fill_mem vs (memcpy_u64 mem p v 8) (p + 8) n a"
  proof cases
    case 1
    then show ?thesis
      by (simp add: fill_mem_def memcpy_u64_def)
  next
    case 2
    then have "(a - p) div 8 = 0" "(a - p) mod 8 = a - p"
      by simp_all
    with 2 show ?thesis
      by (simp add: fill_mem_def memcpy_u64_def)
  next
    case 3
    then obtain d where a: "a = p + 8 + d"
      using le_Suc_ex by blast
    have "(a - p) div 8 = Suc (d div 8)" "(a - p) mod 8 = d mod 8" "a - (p + 8) = d"
      unfolding a by simp_all
    then show ?thesis
      unfolding fill_mem_def memcpy_u64_def by (simp add: a)
  qed
qed

lemma fill_mem_snoc:
  assumes "length vs = q" "r \<le> 8"
  shows "memcpy_u64 (fill_mem vs mem p (8 * q)) (p + 8 * q) v r =
         fill_mem (vs @ [v]) mem p (8 * q + r)"
proof
  fix a
  consider "a < p" | "p \<le> a" "a < p + 8 * q" | "p + 8 * q \<le> a" "a < p + 8 * q + r"
    | "p + 8 * q + r \<le> a"
    by linarith
  then show "memcpy_u64 (fill_mem vs mem p (8 * q)) (p + 8 * q) v r a =
         fill_mem (vs @ [v]) mem p (8 * q + r) a"
  proof cases
    case 1
    then show ?thesis
      by (simp add: fill_mem_def memcpy_u64_def)
  next
    case 4
    then show ?thesis
      by (simp add: fill_mem_def memcpy_u64_def)
  next
    case 2
    then have "a - p < q * 8"
      by simp
    then have "(a - p) div 8 < length vs"
      unfolding assms(1) by (rule less_mult_imp_div_less)
    with 2 show ?thesis
      by (simp add: fill_mem_def memcpy_u64_def nth_append)
  next
    case 3
    then obtain d where a: "a = p + 8 * q + d" and d: "d < r"
      by (metis add_less_cancel_left le_Suc_ex)
    have "(a - p) div 8 = q" "(a - p) mod 8 = d" "a - (p + 8 * q) = d"
      unfolding a using d assms(2) by simp_all
    with 3 show ?thesis
      unfolding fill_mem_def memcpy_u64_def using assms(1) by (simp add: nth_append)
  qed
qed


lemma fill_mem_Nil: "fill_mem vs mem p 0 = mem"
  by (rule ext) (auto simp add: fill_mem_def)

lemma sint_minus8:
  fixes len :: c_int
  assumes "8 \<le>s len"
  shows "sint (len - 8) = sint len - 8"
proof -
  have "sint (len - 8) = signed_take_bit 31 (sint len - 8)"
    by (simp add: sint_word_ariths)
  also have "\<dots> = sint len - 8"
    using assms sint_lt [of len]
    by (intro signed_take_bit_int_eq_self) (simp_all add: word_sle_eq)
  finally show ?thesis .
qed

lemma fill_loop_effect:
  "0 \<le> sint len \<Longrightarrow>
   \<exists>len'. fill_loop rng w mem p len =
       (fst (snd (prng_outputs (nat (sint len) div 8) rng w)),
        snd (snd (prng_outputs (nat (sint len) div 8) rng w)),
        fill_mem (fst (prng_outputs (nat (sint len) div 8) rng w)) mem p
          (8 * (nat (sint len) div 8)),
        p + 8 * (nat (sint len) div 8),
        len')
     \<and> sint len' = int (nat (sint len) mod 8)"
proof (induction rng w mem p len rule: fill_loop.induct)
  case (1 rng w mem p len)
  show ?case
  proof (cases "8 \<le>s len")
    case False
    then have small: "sint len < 8"
      by (simp add: word_sle_eq)
    with "1.prems" have q: "nat (sint len) div 8 = 0" and m: "int (nat (sint len) mod 8) = sint len"
      by simp_all
    have "fill_loop rng w mem p len = (rng, w, mem, p, len)"
      using False by (simp add: fill_loop.simps [of rng w mem p len])
    then show ?thesis
      unfolding q m by (simp add: fill_mem_Nil)
  next
    case True
    define r where "r = phit_prng_u64 rng w"
    define v where "v = fst r"
    define mem1 where "mem1 = memcpy_u64 mem p v 8"
    define q' where "q' = nat (sint (len - 8)) div 8"
    define outs' where "outs' = prng_outputs q' (fst (snd r)) (snd (snd r))"
    have s8: "sint (len - 8) = sint len - 8"
      using True by (rule sint_minus8)
    have ge: "8 \<le> sint len"
      using True by (simp add: word_sle_eq)
    have step: "fill_loop rng w mem p len =
        fill_loop (fst (snd r)) (snd (snd r)) mem1 (p + 8) (len - 8)"
      using True
      by (subst fill_loop.simps) (simp add: Let_def r_def v_def mem1_def)
    have "0 \<le> sint (len - 8)"
      using ge s8 by simp
    with "1.IH" [OF True r_def v_def mem1_def]
    obtain len' where ih: "fill_loop (fst (snd r)) (snd (snd r)) mem1 (p + 8) (len - 8) =
        (fst (snd outs'), snd (snd outs'), fill_mem (fst outs') mem1 (p + 8) (8 * q'), p + 8 + 8 * q', len')"
      and l': "sint len' = int (nat (sint (len - 8)) mod 8)"
      unfolding outs'_def q'_def by blast
    have n: "nat (sint len) = 8 + nat (sint (len - 8))"
      using ge s8 by simp
    then have q: "nat (sint len) div 8 = Suc q'" and m: "nat (sint len) mod 8 = nat (sint (len - 8)) mod 8"
      unfolding q'_def by simp_all
    have out: "prng_outputs (Suc q') rng w = (v # fst outs', snd outs')"
      by (simp add: Let_def r_def v_def outs'_def)
    have mem: "fill_mem (v # fst outs') mem p (8 + 8 * q') =
        fill_mem (fst outs') mem1 (p + 8) (8 * q')"
      by (simp only: fill_mem_Cons mem1_def)
    have "fill_loop rng w mem p len =
        (fst (snd (prng_outputs (Suc q') rng w)), snd (snd (prng_outputs (Suc q') rng w)),
         fill_mem (fst (prng_outputs (Suc q') rng w)) mem p (8 * Suc q'), p + 8 * Suc q', len')"
      unfolding step ih out by (simp add: mem)
    with l' show ?thesis
      unfolding q m by blast
  qed
qed

text \<open>
  C10. For every length \<open>n \<ge> 0\<close>, \<open>phit_prng_fill\<close> draws exactly \<open>(n + 7) div 8\<close> values
  from \<open>phit_prng_u64\<close> and leaves the generator and the world as those draws leave them;
  byte \<open>j < n\<close> of the buffer becomes byte \<open>j mod 8\<close> of the value number \<open>j div 8\<close>, so full
  values are copied 8 bytes at a time and the last one is truncated when \<open>n\<close> is not a
  multiple of 8; every address below the buffer or from offset \<open>n\<close> on keeps its byte.
\<close>

theorem phit_prng_fill_exact:
  assumes "0 \<le>s len"
  shows "phit_prng_fill rng w mem buf len =
           (fst (snd (prng_outputs ((nat (sint len) + 7) div 8) rng w)),
            snd (snd (prng_outputs ((nat (sint len) + 7) div 8) rng w)),
            fill_mem (fst (prng_outputs ((nat (sint len) + 7) div 8) rng w)) mem buf
              (nat (sint len)))
       \<and> length (fst (prng_outputs ((nat (sint len) + 7) div 8) rng w)) =
           (nat (sint len) + 7) div 8
       \<and> generated (fst (phit_prng_fill rng w mem buf len)) =
           generated rng + of_nat ((nat (sint len) + 7) div 8)
       \<and> reads (fst (snd (phit_prng_fill rng w mem buf len))) =
           reads w + 4 * ((nat (sint len) + 7) div 8)
       \<and> (\<forall>j. j < nat (sint len) \<longrightarrow>
            snd (snd (phit_prng_fill rng w mem buf len)) (buf + j) =
            u64_byte (fst (prng_outputs ((nat (sint len) + 7) div 8) rng w) ! (j div 8)) (j mod 8))
       \<and> (\<forall>a. a < buf \<or> buf + nat (sint len) \<le> a \<longrightarrow>
            snd (snd (phit_prng_fill rng w mem buf len)) a = mem a)"
proof -
  define n where "n = nat (sint len)"
  define q where "q = n div 8"
  define k where "k = (n + 7) div 8"
  define outs where "outs = prng_outputs q rng w"
  from assms have nonneg: "0 \<le> sint len"
    by (simp add: word_sle_eq)
  from fill_loop_effect [OF nonneg, of rng w mem buf]
  obtain len' where loop: "fill_loop rng w mem buf len =
      (fst (snd outs), snd (snd outs), fill_mem (fst outs) mem buf (8 * q), buf + 8 * q, len')"
    and l': "sint len' = int (n mod 8)"
    unfolding outs_def q_def n_def by blast
  have main: "phit_prng_fill rng w mem buf len =
      (fst (snd (prng_outputs k rng w)), snd (snd (prng_outputs k rng w)),
       fill_mem (fst (prng_outputs k rng w)) mem buf n)"
  proof (cases "n mod 8 = 0")
    case True
    then have "\<not> 0 <s len'"
      using l' by (simp add: word_sless_alt)
    moreover from True have "k = q" "8 * q = n"
      unfolding k_def q_def by presburger+
    ultimately show ?thesis
      by (simp add: phit_prng_fill_def loop outs_def)
  next
    case False
    then have pos: "0 <s len'" and r: "nat (sint len') = n mod 8"
      using l' by (simp_all add: word_sless_alt)
    from False have kq: "k = Suc q" and n8: "8 * q + n mod 8 = n"
      unfolding k_def q_def by presburger+
    define r2 where "r2 = phit_prng_u64 (fst (snd outs)) (snd (snd outs))"
    have out: "prng_outputs (Suc q) rng w = (fst outs @ [fst r2], snd r2)"
      unfolding outs_def r2_def by (rule prng_outputs_snoc)
    have "length (fst outs) = q"
      unfolding outs_def by (rule prng_outputs_length)
    then have "memcpy_u64 (fill_mem (fst outs) mem buf (8 * q)) (buf + 8 * q) (fst r2) (n mod 8) =
        fill_mem (fst outs @ [fst r2]) mem buf (8 * q + n mod 8)"
      by (rule fill_mem_snoc) simp
    then have mem: "memcpy_u64 (fill_mem (fst outs) mem buf (8 * q)) (buf + 8 * q) (fst r2) (n mod 8) =
        fill_mem (fst outs @ [fst r2]) mem buf n"
      by (simp only: n8)
    have "phit_prng_fill rng w mem buf len =
        (fst (snd r2), snd (snd r2),
         memcpy_u64 (fill_mem (fst outs) mem buf (8 * q)) (buf + 8 * q) (fst r2) (n mod 8))"
      using pos by (simp add: phit_prng_fill_def loop Let_def r2_def r)
    then show ?thesis
      unfolding kq out mem by simp
  qed
  have len: "length (fst (prng_outputs k rng w)) = k"
    by (rule prng_outputs_length)
  have gen: "generated (fst (phit_prng_fill rng w mem buf len)) = generated rng + of_nat k"
    unfolding main by (simp add: prng_outputs_generated)
  have rd: "reads (fst (snd (phit_prng_fill rng w mem buf len))) = reads w + 4 * k"
    unfolding main by (simp add: prng_outputs_reads)
  have bytes: "\<forall>j. j < n \<longrightarrow> snd (snd (phit_prng_fill rng w mem buf len)) (buf + j) =
      u64_byte (fst (prng_outputs k rng w) ! (j div 8)) (j mod 8)"
    unfolding main by (simp add: fill_mem_def)
  have frame: "\<forall>a. a < buf \<or> buf + n \<le> a \<longrightarrow>
      snd (snd (phit_prng_fill rng w mem buf len)) a = mem a"
    unfolding main by (auto simp add: fill_mem_def)
  from main len gen rd bytes frame show ?thesis
    unfolding n_def k_def by blast
qed

theorem phit_prng_fill_exact_witness:
  "0 \<le>s (11 :: c_int)
   \<and> generated (fst (phit_prng_fill zero_prng still_world (\<lambda>a. 0) 100 11)) = 2
   \<and> reads (fst (snd (phit_prng_fill zero_prng still_world (\<lambda>a. 0) 100 11))) = 8
   \<and> snd (snd (phit_prng_fill zero_prng still_world (\<lambda>a. 0) 100 11)) 99 = 0
   \<and> snd (snd (phit_prng_fill zero_prng still_world (\<lambda>a. 0) 100 11)) 111 = 0
   \<and> snd (snd (phit_prng_fill zero_prng still_world (\<lambda>a. 0) 100 11)) (100 + 10) =
       u64_byte (fst (prng_outputs 2 zero_prng still_world) ! 1) 2"
proof -
  have h: "0 \<le>s (11 :: c_int)"
    by (simp add: word_sle_eq)
  have n: "nat (sint (11 :: c_int)) = 11"
    by simp
  note t = phit_prng_fill_exact [OF h, of zero_prng still_world "\<lambda>a. 0" 100, unfolded n]
  have k: "(11 + 7) div 8 = (2 :: nat)"
    by simp
  from t have "generated (fst (phit_prng_fill zero_prng still_world (\<lambda>a. 0) 100 11)) =
      generated zero_prng + of_nat ((11 + 7) div 8)"
    by blast
  then have g: "generated (fst (phit_prng_fill zero_prng still_world (\<lambda>a. 0) 100 11)) = 2"
    by (simp add: zero_prng_def)
  from t have "reads (fst (snd (phit_prng_fill zero_prng still_world (\<lambda>a. 0) 100 11))) =
      reads still_world + 4 * ((11 + 7) div 8)"
    by blast
  then have r: "reads (fst (snd (phit_prng_fill zero_prng still_world (\<lambda>a. 0) 100 11))) = 8"
    by (simp add: still_world_def)
  from t have fr: "\<forall>a. a < 100 \<or> 100 + 11 \<le> a \<longrightarrow>
      snd (snd (phit_prng_fill zero_prng still_world (\<lambda>a. 0) 100 11)) a = 0"
    by blast
  have a: "snd (snd (phit_prng_fill zero_prng still_world (\<lambda>a. 0) 100 11)) 99 = 0"
    "snd (snd (phit_prng_fill zero_prng still_world (\<lambda>a. 0) 100 11)) 111 = 0"
    using fr by simp_all
  have "(10 :: nat) < 11"
    by simp
  with t have "snd (snd (phit_prng_fill zero_prng still_world (\<lambda>a. 0) 100 11)) (100 + 10) =
       u64_byte (fst (prng_outputs ((11 + 7) div 8) zero_prng still_world) ! (10 div 8)) (10 mod 8)"
    by blast
  then have b: "snd (snd (phit_prng_fill zero_prng still_world (\<lambda>a. 0) 100 11)) (100 + 10) =
       u64_byte (fst (prng_outputs 2 zero_prng still_world) ! 1) 2"
    by (simp only: k) simp
  from h g r a b show ?thesis
    by blast
qed

end
